theory Spec2Isabelle
  imports Main "HOL-Library.AList"
begin

section \<open>Python values, parameters and dictionaries\<close>

text \<open>
  The five parameter kinds of \<^verbatim>\<open>inspect.Parameter\<close>. The source only ever tests a kind
  for membership in \<^verbatim>\<open>[VAR_POSITIONAL, VAR_KEYWORD]\<close>.
\<close>

datatype kind =
  POSITIONAL_ONLY | POSITIONAL_OR_KEYWORD | VAR_POSITIONAL | KEYWORD_ONLY | VAR_KEYWORD

text \<open>
  A Python object is either the sentinel \<^verbatim>\<open>inspect.Parameter.empty\<close> (the only object the
  source tests by identity) or any other object, carried as a value of type \<open>'v\<close>.
\<close>

datatype 'v pyval = ParameterEmpty | Obj 'v

datatype error = IndexError | AttributeError | TypeError

text \<open>An \<^verbatim>\<open>inspect.Parameter\<close>: its name, its kind and its default.\<close>

record 'v parameter =
  pname :: string
  pkind :: kind
  pdefault :: "'v pyval"

text \<open>
  \<^verbatim>\<open>inspect.signature(base).parameters\<close> is an ordered mapping from names to parameters;
  \<^verbatim>\<open>list(params.values())\<close> is the list of its parameters in declaration order. The
  reflection itself belongs to the standard library, so a class enters the recorder as this
  list, and \<^verbatim>\<open>inspect.getmro(cls)\<close> as the list of the signatures of the bases, the most
  derived first.
\<close>

type_synonym 'v signature = "'v parameter list"

text \<open>
  A \<^verbatim>\<open>dict\<close> with string keys, in insertion order: assigning to a key that is present
  keeps its place, a new key goes last (\<open>AList.update\<close>); \<^verbatim>\<open>d.pop(key, None)\<close>
  is \<open>AList.delete\<close>; two dictionaries are equal in Python when they hold the same
  keys with the same values, in any order (\<open>map_of\<close>).
\<close>

type_synonym 'v dict = "(string \<times> 'v pyval) list"

definition dict_update :: "'v dict \<Rightarrow> 'v dict \<Rightarrow> 'v dict" where
  "dict_update data kvs = fold (\<lambda>(k, v) d. AList.update k v d) kvs data"


section \<open>The construction argument recorder\<close>

definition is_variadic :: "'v parameter \<Rightarrow> bool" where
  "is_variadic p = (pkind p = VAR_POSITIONAL \<or> pkind p = VAR_KEYWORD)"

text \<open>The dictionary \<^verbatim>\<open>arg\<close> of lines 100-105, as the list of its parameters.\<close>

definition arg_params :: "'v signature \<Rightarrow> 'v parameter list" where
  "arg_params params = filter (\<lambda>v. pdefault v = ParameterEmpty \<and> \<not> is_variadic v) params"

text \<open>The dictionary \<^verbatim>\<open>kw\<close> of lines 107-112.\<close>

definition kw_params :: "'v signature \<Rightarrow> 'v dict" where
  "kw_params params =
     map (\<lambda>v. (pname v, pdefault v))
       (filter (\<lambda>v. pdefault v \<noteq> ParameterEmpty \<and> \<not> is_variadic v) params)"

text \<open>
  Lines 118-119: every parameter of \<^verbatim>\<open>arg\<close> takes the next positional argument, or its own
  default (the sentinel) when none is left.
\<close>

fun assign_required :: "'v parameter list \<Rightarrow> 'v dict \<Rightarrow> 'v pyval list \<Rightarrow> 'v dict \<times> 'v pyval list" where
  "assign_required [] data args = (data, args)"
| "assign_required (v # vs) data [] =
     assign_required vs (AList.update (pname v) (pdefault v) data) []"
| "assign_required (v # vs) data (a # args) =
     assign_required vs (AList.update (pname v) a data) args"

text \<open>
  Lines 123-132: \<^verbatim>\<open>for i in range(len(args))\<close>, the range being fixed when the loop starts.
  The second argument is the index \<^verbatim>\<open>idx = len(arg) + i\<close>, the third the number of iterations
  still to run. \<^verbatim>\<open>params_list[idx]\<close> raises \<^verbatim>\<open>IndexError\<close> out of range, and so
  does \<^verbatim>\<open>args.pop(0)\<close> on an empty list.
\<close>

fun assign_overflow ::
  "'v signature \<Rightarrow> nat \<Rightarrow> nat \<Rightarrow> 'v dict \<Rightarrow> 'v pyval list \<Rightarrow> error + ('v dict \<times> 'v pyval list)" where
  "assign_overflow params_list idx 0 data args = Inr (data, args)"
| "assign_overflow params_list idx (Suc n) data args =
     (if length params_list \<le> idx then Inl IndexError
      else if is_variadic (params_list ! idx) then Inr (data, args)
      else (case args of
              [] \<Rightarrow> Inl IndexError
            | a # args' \<Rightarrow>
                assign_overflow params_list (Suc idx) n
                  (AList.update (pname (params_list ! idx)) a data) args'))"

text \<open>The body of the loop over the bases for one base, lines 96-132.\<close>

definition process_base ::
  "'v signature \<Rightarrow> 'v dict \<Rightarrow> 'v pyval list \<Rightarrow> error + ('v dict \<times> 'v pyval list)" where
  "process_base params_list data args =
     (let arg = arg_params params_list;
          kw = kw_params params_list;
          data1 = dict_update data kw;
          (data2, args2) = assign_required arg data1 args
      in assign_overflow params_list (length arg) (length args2) data2 args2)"

text \<open>Lines 138-141: the base declares neither \<^verbatim>\<open>*args\<close> nor \<^verbatim>\<open>**kwargs\<close>.\<close>

definition no_variadic :: "'v signature \<Rightarrow> bool" where
  "no_variadic params_list =
     (VAR_POSITIONAL \<notin> set (map pkind params_list) \<and> VAR_KEYWORD \<notin> set (map pkind params_list))"

text \<open>The loop over \<^verbatim>\<open>inspect.getmro(self.__class__)\<close>, lines 94-141.\<close>

fun walk :: "'v signature list \<Rightarrow> 'v dict \<Rightarrow> 'v pyval list \<Rightarrow> error + 'v dict" where
  "walk [] data args = Inr data"
| "walk (params_list # bases) data args =
     (case process_base params_list data args of
        Inl e \<Rightarrow> Inl e
      | Inr (data', args') \<Rightarrow>
          if no_variadic params_list then Inr data' else walk bases data' args')"

definition reserved :: "string list" where
  "reserved = [''cls'', ''self'', ''args'', ''kwargs'']"

text \<open>Lines 148-149: \<^verbatim>\<open>for key in [...]: data.pop(key, None)\<close>.\<close>

definition clean_up :: "'v dict \<Rightarrow> 'v dict" where
  "clean_up data = fold AList.delete reserved data"

text \<open>
  \<^verbatim>\<open>InstancingArgsTracker.__post_init__\<close>, lines 83-152: the value stored in
  \<^verbatim>\<open>self._metadata\<close>, or the exception raised before the store.
\<close>

definition post_init :: "'v signature list \<Rightarrow> 'v pyval list \<Rightarrow> 'v dict \<Rightarrow> error + 'v dict" where
  "post_init mro args kwargs =
     (case walk mro [] args of
        Inl e \<Rightarrow> Inl e
      | Inr data \<Rightarrow> Inr (clean_up (dict_update data kwargs)))"


subsection \<open>Names and slots\<close>


text \<open>All parameter names a chain of signatures declares, the variadic ones included.\<close>

definition declared_names :: "'v signature list \<Rightarrow> string set" where
  "declared_names mro = set (map pname (concat mro))"



subsection \<open>Signatures whose required parameters are its first positional ones\<close>

text \<open>
  The parameters before the first variadic one are those a positional argument can reach. A
  signature is well ordered when its parameters without default are exactly the leading
  ones of these: it has no required keyword-only parameter. The defaults of a signature are
  the defaults of all its non-variadic parameters, the sentinel for a required one.
\<close>

definition positional :: "'v signature \<Rightarrow> 'v parameter list" where
  "positional sig = takeWhile (\<lambda>v. \<not> is_variadic v) sig"

definition well_ordered :: "'v signature \<Rightarrow> bool" where
  "well_ordered sig =
     (arg_params sig = takeWhile (\<lambda>v. pdefault v = ParameterEmpty) (positional sig))"

definition defaults :: "'v signature \<Rightarrow> 'v dict" where
  "defaults sig = map (\<lambda>v. (pname v, pdefault v)) (filter (\<lambda>v. \<not> is_variadic v) sig)"

text \<open>The bases the walk visits: up to the first one without a variadic parameter.\<close>

fun visited_sigs :: "'v signature list \<Rightarrow> 'v signature list" where
  "visited_sigs [] = []"
| "visited_sigs (sig # mro) = (if no_variadic sig then [sig] else sig # visited_sigs mro)"

definition chain_names :: "'v signature list \<Rightarrow> string list" where
  "chain_names mro = concat (map (\<lambda>sig. map pname (positional sig)) (visited_sigs mro))"

definition chain_defaults :: "'v signature list \<Rightarrow> 'v dict" where
  "chain_defaults mro = concat (map defaults (visited_sigs mro))"

subsection \<open>The hierarchies of the test suite\<close>

definition required :: "string \<Rightarrow> 'v parameter" where
  "required n = \<lparr>pname = n, pkind = POSITIONAL_OR_KEYWORD, pdefault = ParameterEmpty\<rparr>"

definition defaulted :: "string \<Rightarrow> 'v \<Rightarrow> 'v parameter" where
  "defaulted n d = \<lparr>pname = n, pkind = POSITIONAL_OR_KEYWORD, pdefault = Obj d\<rparr>"

definition keyword_only :: "string \<Rightarrow> 'v parameter" where
  "keyword_only n = \<lparr>pname = n, pkind = KEYWORD_ONLY, pdefault = ParameterEmpty\<rparr>"

definition var_positional :: "string \<Rightarrow> 'v parameter" where
  "var_positional n = \<lparr>pname = n, pkind = VAR_POSITIONAL, pdefault = ParameterEmpty\<rparr>"

definition var_keyword :: "string \<Rightarrow> 'v parameter" where
  "var_keyword n = \<lparr>pname = n, pkind = VAR_KEYWORD, pdefault = ParameterEmpty\<rparr>"

text \<open>
  \<^verbatim>\<open>TestInstanceArgs.Parent.__init__(self, p1, p2, p3="vp3")\<close>,
  \<^verbatim>\<open>Child.__init__(self, c1, c2="vc2", c3="vc3", *args, **kwargs)\<close> and
  \<^verbatim>\<open>Grandchild.__init__(self, gc1, gc2="vgc2", *args, **kwargs)\<close>; the signature of a
  class leaves the receiver out.
\<close>

definition Parent_sig :: "string signature" where
  "Parent_sig = [required ''p1'', required ''p2'', defaulted ''p3'' ''vp3'']"

definition Child_sig :: "string signature" where
  "Child_sig = [required ''c1'', defaulted ''c2'' ''vc2'', defaulted ''c3'' ''vc3'',
                var_positional ''args'', var_keyword ''kwargs'']"

definition Grandchild_sig :: "string signature" where
  "Grandchild_sig = [required ''gc1'', defaulted ''gc2'' ''vgc2'',
                     var_positional ''args'', var_keyword ''kwargs'']"

text \<open>
  Every chain ends with the bases of the library itself: \<^verbatim>\<open>InstancingArgsTracker\<close>, whose
  initializer is the wrapper around \<^verbatim>\<open>object.__init__\<close> and is reported as
  \<^verbatim>\<open>(*args, **kwargs)\<close>, then \<^verbatim>\<open>CallPostInit\<close>, \<^verbatim>\<open>ABC\<close> and \<^verbatim>\<open>object\<close>, which
  have the empty signature.
\<close>

definition tracker_bases :: "'v signature list" where
  "tracker_bases = [[var_positional ''args'', var_keyword ''kwargs''], [], [], []]"

section \<open>The instance registry\<close>

text \<open>
  Classes are known by their names, instances by their identity. The state of the registry:
  \<open>instances s c\<close> is the \<^verbatim>\<open>WeakSet\<close> stored under the key \<^verbatim>\<open>instances\<close> of
  \<^verbatim>\<open>c.__dict__\<close>, as the list of the objects added to it, or \<open>None\<close> when the class has
  no such attribute of its own; \<open>class_of s o\<close> is the exact type of every object built so
  far; \<open>alive s\<close> are the objects not yet reclaimed. A weak set only shows its live members.
\<close>

type_synonym cname = string
type_synonym obj = nat

record registry =
  instances :: "cname \<rightharpoonup> obj list"
  class_of :: "obj \<rightharpoonup> cname"
  alive :: "obj set"
  next_obj :: obj

definition init_registry :: registry where
  "init_registry = \<lparr>instances = Map.empty, class_of = Map.empty, alive = {}, next_obj = 0\<rparr>"

text \<open>\<^verbatim>\<open>TrackedInstances.__new__(cls)\<close>, lines 14-25; the new instance is \<open>next_obj s\<close>.\<close>

definition new_instance :: "cname \<Rightarrow> registry \<Rightarrow> registry" where
  "new_instance cls s =
     (let instance = next_obj s;
          own = (case instances s cls of None \<Rightarrow> [] | Some r \<Rightarrow> r)
      in s\<lparr>instances := (instances s)(cls \<mapsto> own @ [instance]),
            class_of := (class_of s)(instance \<mapsto> cls),
            alive := insert instance (alive s),
            next_obj := Suc instance\<rparr>)"

text \<open>The last reference to an object goes away and the object is reclaimed.\<close>

definition reclaim :: "obj \<Rightarrow> registry \<Rightarrow> registry" where
  "reclaim x s = s\<lparr>alive := alive s - {x}\<rparr>"

datatype event = New cname | Reclaim obj

fun step :: "event \<Rightarrow> registry \<Rightarrow> registry" where
  "step (New cls) s = new_instance cls s"
| "step (Reclaim x) s = reclaim x s"

definition run :: "event list \<Rightarrow> registry" where
  "run es = fold step es init_registry"

text \<open>Iterating over a \<^verbatim>\<open>WeakSet\<close> yields its members that are still alive.\<close>

definition weak_list :: "registry \<Rightarrow> obj list \<Rightarrow> obj list" where
  "weak_list s r = filter (\<lambda>x. x \<in> alive s) r"


text \<open>The live instances whose exact type is the class.\<close>

definition live_instances :: "registry \<Rightarrow> cname \<Rightarrow> obj set" where
  "live_instances s cls = {x \<in> alive s. class_of s x = Some cls}"

text \<open>
  A class with the classes \<^verbatim>\<open>__subclasses__()\<close> returns for it, and theirs. The attribute
  \<^verbatim>\<open>cls.instances\<close> of line 51 is looked up along the method resolution order: the class
  itself, then its ancestors, the nearest first (under single inheritance, the path from the
  class up to \<^verbatim>\<open>TrackedInstances\<close>).
\<close>

datatype ctree = Class cname "ctree list"

fun name_of :: "ctree \<Rightarrow> cname" where
  "name_of (Class c subs) = c"

fun lookup_instances :: "registry \<Rightarrow> cname list \<Rightarrow> obj list option" where
  "lookup_instances s [] = None"
| "lookup_instances s (c # mro) =
     (case instances s c of Some r \<Rightarrow> Some r | None \<Rightarrow> lookup_instances s mro)"

text \<open>
  \<^verbatim>\<open>TrackedInstances.inst_and_subcls_inst(cls, exclude)\<close>, lines 42-54, for the class at the
  root of the tree, whose ancestors are \<open>anc\<close>. The list \<^verbatim>\<open>inst\<close> is only ever turned
  into a set, so it is kept as one; \<open>collect_subclasses\<close> is the loop of lines 52-53 over
  the subclasses that are not excluded.
\<close>

fun inst_and_subcls_inst :: "registry \<Rightarrow> cname list \<Rightarrow> ctree \<Rightarrow> cname list \<Rightarrow> error + obj set"
  and collect_subclasses ::
    "registry \<Rightarrow> cname list \<Rightarrow> ctree list \<Rightarrow> cname list \<Rightarrow> obj set \<Rightarrow> error + obj set" where
  "inst_and_subcls_inst s anc (Class c subs) exclude =
     (case lookup_instances s (c # anc) of
        None \<Rightarrow> Inl AttributeError
      | Some r \<Rightarrow> collect_subclasses s (c # anc) subs exclude (set (weak_list s r)))"
| "collect_subclasses s mro [] exclude inst = Inr inst"
| "collect_subclasses s mro (subcls # subs) exclude inst =
     (if name_of subcls \<in> set exclude then collect_subclasses s mro subs exclude inst
      else (case inst_and_subcls_inst s mro subcls exclude of
              Inl e \<Rightarrow> Inl e
            | Inr r \<Rightarrow> collect_subclasses s mro subs exclude (inst \<union> r)))"

text \<open>
  What the docstring of \<^verbatim>\<open>inst_and_subcls_inst\<close> describes: the live instances of the class
  and of its subclasses, the excluded subclasses and all below them left out.
\<close>

fun expected_instances :: "registry \<Rightarrow> ctree \<Rightarrow> cname list \<Rightarrow> obj set"
  and expected_below :: "registry \<Rightarrow> ctree list \<Rightarrow> cname list \<Rightarrow> obj set" where
  "expected_instances s (Class c subs) exclude = live_instances s c \<union> expected_below s subs exclude"
| "expected_below s [] exclude = {}"
| "expected_below s (subcls # subs) exclude =
     (if name_of subcls \<in> set exclude then expected_below s subs exclude
      else expected_instances s subcls exclude \<union> expected_below s subs exclude)"

text \<open>The classes of a tree that an exclusion list leaves in.\<close>

fun visited :: "ctree \<Rightarrow> cname list \<Rightarrow> cname list"
  and visited_below :: "ctree list \<Rightarrow> cname list \<Rightarrow> cname list" where
  "visited (Class c subs) exclude = c # visited_below subs exclude"
| "visited_below [] exclude = []"
| "visited_below (subcls # subs) exclude =
     (if name_of subcls \<in> set exclude then visited_below subs exclude
      else visited subcls exclude @ visited_below subs exclude)"

section \<open>The metadata view\<close>

text \<open>
  An instance of \<^verbatim>\<open>InstancingArgsTracker\<close> and the dictionaries it can refer to:
  \<open>attrs\<close> is the \<^verbatim>\<open>__dict__\<close> of the instance, from attribute names to addresses, and
  \<open>dicts\<close> holds the dictionary at each address.
\<close>

record 'v pyobject =
  attrs :: "string \<rightharpoonup> nat"
  dicts :: "nat \<rightharpoonup> 'v dict"
  next_addr :: nat

text \<open>Line 152, \<^verbatim>\<open>self._metadata = data\<close>, for the dictionary created at line 89.\<close>

definition store_metadata :: "'v dict \<Rightarrow> 'v pyobject \<Rightarrow> 'v pyobject" where
  "store_metadata data st =
     st\<lparr>attrs := (attrs st)(''_metadata'' \<mapsto> next_addr st),
        dicts := (dicts st)(next_addr st \<mapsto> data),
        next_addr := Suc (next_addr st)\<rparr>"

text \<open>The property \<^verbatim>\<open>metadata\<close>, lines 154-157: \<^verbatim>\<open>return self._metadata\<close>.\<close>

definition metadata :: "'v pyobject \<Rightarrow> error + nat" where
  "metadata st = (case attrs st ''_metadata'' of None \<Rightarrow> Inl AttributeError | Some a \<Rightarrow> Inr a)"

text \<open>
  \<^verbatim>\<open>instance.name = value\<close>: the class defines \<^verbatim>\<open>metadata\<close> as a property without a
  setter, so assigning to that name raises \<^verbatim>\<open>AttributeError\<close>; any other name is stored in
  the \<^verbatim>\<open>__dict__\<close> of the instance.
\<close>

definition setattr :: "'v pyobject \<Rightarrow> string \<Rightarrow> nat \<Rightarrow> error + 'v pyobject" where
  "setattr st name a =
     (if name = ''metadata'' then Inl AttributeError
      else Inr (st\<lparr>attrs := (attrs st)(name \<mapsto> a)\<rparr>))"

text \<open>\<^verbatim>\<open>d[k] = v\<close> for the dictionary at an address.\<close>

definition setitem :: "'v pyobject \<Rightarrow> nat \<Rightarrow> string \<Rightarrow> 'v pyval \<Rightarrow> error + 'v pyobject" where
  "setitem st a k v =
     (case dicts st a of
        None \<Rightarrow> Inl TypeError
      | Some d \<Rightarrow> Inr (st\<lparr>dicts := (dicts st)(a \<mapsto> AList.update k v d)\<rparr>))"

text \<open>\<^verbatim>\<open>instance.metadata[k] = v\<close>.\<close>

definition metadata_setitem :: "'v pyobject \<Rightarrow> string \<Rightarrow> 'v pyval \<Rightarrow> error + 'v pyobject" where
  "metadata_setitem st k v =
     (case metadata st of Inl e \<Rightarrow> Inl e | Inr a \<Rightarrow> setitem st a k v)"

text \<open>The contents of \<^verbatim>\<open>instance.metadata\<close>.\<close>

definition read_metadata :: "'v pyobject \<Rightarrow> error + 'v dict" where
  "read_metadata st =
     (case metadata st of
        Inl e \<Rightarrow> Inl e
      | Inr a \<Rightarrow> (case dicts st a of None \<Rightarrow> Inl TypeError | Some d \<Rightarrow> Inr d))"

definition then_read :: "error + 'v pyobject \<Rightarrow> error + 'v dict" where
  "then_read r = (case r of Inl e \<Rightarrow> Inl e | Inr st \<Rightarrow> read_metadata st)"

definition new_object :: "'v pyobject" where
  "new_object = \<lparr>attrs = Map.empty, dicts = Map.empty, next_addr = 0\<rparr>"

section \<open>The post-construction hook\<close>

text \<open>
  What happens while an object is initialised, as a trace: the body of a class's own
  \<^verbatim>\<open>__init__\<close> starts with some arguments and returns, and a wrapper calls
  \<^verbatim>\<open>self.__post_init__(*args, **kwargs)\<close>.
\<close>

type_synonym 'v kwargs = "(string \<times> 'v) list"

datatype 'v trace_event =
    Enter cname "'v list" "'v kwargs"
  | Leave cname
  | PostInit cname "'v list" "'v kwargs"

type_synonym 'v outcome = "error + 'v trace_event list"

text \<open>
  The \<^verbatim>\<open>__init__\<close> a class statement leaves in the class: none of its own (the attribute is
  inherited), a body that calls no other initializer, or a body that calls
  \<^verbatim>\<open>super().__init__\<close> with arguments computed from its own. A class takes part in the
  protocol when it is a subclass of \<^verbatim>\<open>CallPostInit\<close>; the base of a class is the class whose
  initializer \<^verbatim>\<open>super().__init__\<close> reaches.
\<close>

datatype 'v body =
    Inherited
  | Plain
  | Forwarding "'v list \<Rightarrow> 'v kwargs \<Rightarrow> 'v list \<times> 'v kwargs"

datatype 'v pclass =
  PClass (cls_name: cname) (participates: bool) (body: "'v body") (base: "'v pclass option")

text \<open>
  Lines 62-65. \<open>t\<close> is \<^verbatim>\<open>type(self)\<close>, \<open>cls\<close> the class being wrapped and
  \<open>default_init\<close> the value of \<^verbatim>\<open>cls.__init__\<close> when the wrapper was made, the default of the
  keyword-only parameter \<^verbatim>\<open>init\<close>. A keyword argument named \<^verbatim>\<open>init\<close> binds that parameter
  instead and is not part of \<^verbatim>\<open>kwargs\<close>; \<open>call v\<close> is what calling the object \<open>v\<close>
  with \<^verbatim>\<open>(self, *args, **kwargs)\<close> does.
\<close>

definition new_init ::
  "('v \<Rightarrow> 'v list \<Rightarrow> 'v kwargs \<Rightarrow> 'v outcome) \<Rightarrow> cname \<Rightarrow> cname \<Rightarrow>
   ('v list \<Rightarrow> 'v kwargs \<Rightarrow> 'v outcome) \<Rightarrow> 'v list \<Rightarrow> 'v kwargs \<Rightarrow> 'v outcome" where
  "new_init call t cls default_init args kwargs =
     (let (init, kwargs') =
            (case map_of kwargs ''init'' of
               None \<Rightarrow> (default_init, kwargs)
             | Some v \<Rightarrow> (call v, AList.delete ''init'' kwargs))
      in case init args kwargs' of
           Inl e \<Rightarrow> Inl e
         | Inr es \<Rightarrow> if t = cls then Inr (es @ [PostInit cls args kwargs']) else Inr es)"

text \<open>
  The \<^verbatim>\<open>__init__\<close> found in a class when its class statement ends, before any wrapping;
  \<open>inherited\<close> is the initializer of its base.
\<close>

definition orig_init ::
  "cname \<Rightarrow> 'v body \<Rightarrow> ('v list \<Rightarrow> 'v kwargs \<Rightarrow> 'v outcome) \<Rightarrow>
   'v list \<Rightarrow> 'v kwargs \<Rightarrow> 'v outcome" where
  "orig_init c b inherited args kwargs =
     (case b of
        Inherited \<Rightarrow> inherited args kwargs
      | Plain \<Rightarrow> Inr [Enter c args kwargs, Leave c]
      | Forwarding f \<Rightarrow>
          (case inherited (fst (f args kwargs)) (snd (f args kwargs)) of
             Inl e \<Rightarrow> Inl e
           | Inr es \<Rightarrow> Inr (Enter c args kwargs # es @ [Leave c])))"

text \<open>
  \<^verbatim>\<open>cls.__init__\<close> as a call finds it: for a participating class \<^verbatim>\<open>__init_subclass__\<close>
  (lines 59-66) has replaced the original by the wrapper. \<^verbatim>\<open>object.__init__\<close> does nothing.
\<close>

fun initializer ::
  "('v \<Rightarrow> 'v list \<Rightarrow> 'v kwargs \<Rightarrow> 'v outcome) \<Rightarrow> cname \<Rightarrow> 'v pclass \<Rightarrow>
   'v list \<Rightarrow> 'v kwargs \<Rightarrow> 'v outcome" where
  "initializer call t (PClass c part b up) =
     (let inherited = (case up of None \<Rightarrow> (\<lambda>args kwargs. Inr [])
                                | Some p \<Rightarrow> initializer call t p);
          orig = orig_init c b inherited
      in if part then new_init call t c orig else orig)"

text \<open>\<^verbatim>\<open>cls(*args, **kwargs)\<close>: the new object has type \<^verbatim>\<open>cls\<close> and is initialised.\<close>

definition construct ::
  "('v \<Rightarrow> 'v list \<Rightarrow> 'v kwargs \<Rightarrow> 'v outcome) \<Rightarrow> 'v pclass \<Rightarrow> 'v list \<Rightarrow> 'v kwargs \<Rightarrow> 'v outcome" where
  "construct call cls args kwargs = initializer call (cls_name cls) cls args kwargs"

text \<open>The classes below a class on the way to \<^verbatim>\<open>object\<close>.\<close>

fun ancestors :: "'v pclass \<Rightarrow> 'v pclass list" where
  "ancestors (PClass c part b None) = []"
| "ancestors (PClass c part b (Some p)) = p # ancestors p"

fun is_post_init :: "'v trace_event \<Rightarrow> bool" where
  "is_post_init (PostInit c args kwargs) = True"
| "is_post_init _ = False"

text \<open>No body of the class or of its ancestors forwards a keyword named \<^verbatim>\<open>init\<close>.\<close>

definition body_forwards_no_init :: "'v body \<Rightarrow> bool" where
  "body_forwards_no_init b =
     (case b of Forwarding f \<Rightarrow> (\<forall>args kwargs. ''init'' \<notin> fst ` set (snd (f args kwargs)))
              | _ \<Rightarrow> True)"

fun forwards_no_init :: "'v pclass \<Rightarrow> bool" where
  "forwards_no_init (PClass c part b up) =
     (body_forwards_no_init b \<and> (case up of None \<Rightarrow> True | Some p \<Rightarrow> forwards_no_init p))"

text \<open>
  An initializer is quiet when, called without a keyword named \<^verbatim>\<open>init\<close>, it returns and
  has not called the hook.
\<close>

definition quiet ::
  "('v list \<Rightarrow> 'v kwargs \<Rightarrow> 'v outcome) \<Rightarrow> bool" where
  "quiet init = (\<forall>args kwargs. ''init'' \<notin> fst ` set kwargs \<longrightarrow>
     (\<exists>es. init args kwargs = Inr es \<and> (\<forall>e \<in> set es. \<not> is_post_init e)))"

section \<open>Facts about dictionaries\<close>




lemma map_of_dict_update_last:
  "map_of (dict_update d (kvs @ [(k, v)])) k = Some v"
  by (simp add: dict_update_def update_conv')




lemma map_of_clean_up:
  "map_of (clean_up d) k = (if k \<in> set reserved then None else map_of d k)"
  by (simp add: clean_up_def reserved_def delete_conv')

section \<open>Which keys the recorder writes\<close>







lemmas recorder_eval =
  post_init_def process_base_def arg_params_def kw_params_def is_variadic_def dict_update_def
  clean_up_def reserved_def no_variadic_def required_def defaulted_def keyword_only_def
  var_positional_def var_keyword_def tracker_bases_def Parent_sig_def Child_sig_def
  Grandchild_sig_def declared_names_def

section \<open>The keys of the recorded metadata\<close>




text \<open>
  Claim C10. Whenever the walk over the chain succeeds, the metadata is the result of the walk
  overlaid with the keyword arguments, less the four keys \<^verbatim>\<open>cls\<close>, \<^verbatim>\<open>self\<close>, \<^verbatim>\<open>args\<close>
  and \<^verbatim>\<open>kwargs\<close>: these are absent whatever declared them and whatever was passed for them,
  and every other key, a variadic collector of another name included, keeps its value.
\<close>

theorem reserved_removed:
  assumes "walk mro [] args = Inr data"
  shows "\<exists>md. post_init mro args kwargs = Inr md \<and>
           (\<forall>k. map_of md k =
              (if k \<in> {''cls'', ''self'', ''args'', ''kwargs''} then None
               else map_of (dict_update data kwargs) k))"
  using assms by (simp add: post_init_def map_of_clean_up reserved_def)

text \<open>
  The theorem at \<^verbatim>\<open>__init__(self, args, x, **extra)\<close> called with \<^verbatim>\<open>("1", "2", extra="3")\<close>:
  the ordinary parameter \<^verbatim>\<open>args\<close> loses its value, the key \<^verbatim>\<open>extra\<close> stays.
\<close>

theorem reserved_removed_witness:
  "walk [[required ''args'', required ''x'', var_keyword ''extra'']] [] [Obj ''1'', Obj ''2'']
     = Inr [(''args'', Obj ''1''), (''x'', Obj ''2'')] \<and>
   (\<exists>md. post_init [[required ''args'', required ''x'', var_keyword ''extra'']]
            [Obj ''1'', Obj ''2''] [(''extra'', Obj ''3'')] = Inr md \<and>
      map_of md ''args'' = None \<and> map_of md ''x'' = Some (Obj ''2'') \<and>
      map_of md ''extra'' = Some (Obj ''3''))"
proof -
  have run: "walk [[required ''args'', required ''x'', var_keyword ''extra'']] [] [Obj ''1'', Obj ''2'']
     = Inr [(''args'', Obj ''1''), (''x'', Obj ''2'')]"
    by (simp add: recorder_eval)
  from reserved_removed [OF run, of "[(''extra'', Obj ''3'')]"]
  obtain md where md: "post_init [[required ''args'', required ''x'', var_keyword ''extra'']]
            [Obj ''1'', Obj ''2''] [(''extra'', Obj ''3'')] = Inr md"
    and all: "\<forall>k. map_of md k =
              (if k \<in> {''cls'', ''self'', ''args'', ''kwargs''} then None
               else map_of (dict_update [(''args'', Obj ''1''), (''x'', Obj ''2'')] [(''extra'', Obj ''3'')]) k)"
    by blast
  from all have "map_of md ''args'' = None" "map_of md ''x'' = Some (Obj ''2'')"
    "map_of md ''extra'' = Some (Obj ''3'')"
    by (simp_all add: dict_update_def)
  with md run show ?thesis by blast
qed

section \<open>Positional arguments beyond the declared slots\<close>




lemma no_variadic_iff: "no_variadic sig \<longleftrightarrow> (\<forall>v \<in> set sig. \<not> is_variadic v)"
  by (force simp: no_variadic_def is_variadic_def)











section \<open>A name declared at several levels\<close>













section \<open>The parameters of a chain\<close>





section \<open>Positional, keyword and mixed calls\<close>

text \<open>
  On signatures without required keyword-only parameters the recorder binds the positional
  arguments to the positional parameters of the visited bases, in order, over the defaults.
\<close>

lemma map_of_dict_update_rev: "map_of (dict_update d kvs) n = (map_of d ++ map_of (rev kvs)) n"
proof (induction kvs arbitrary: d)
  case Nil
  show ?case by (simp add: dict_update_def)
next
  case (Cons kv kvs)
  obtain k v where kv: "kv = (k, v)" by (cases kv)
  have "dict_update d (kv # kvs) = dict_update (AList.update k v d) kvs"
    by (simp add: dict_update_def kv)
  then show ?case
    by (simp add: Cons.IH kv update_conv map_add_def split: option.splits)
qed

lemma map_of_rev_distinct: "distinct (map fst xs) \<Longrightarrow> map_of (rev xs) n = map_of xs n"
proof -
  assume "distinct (map fst xs)"
  then have "map_of (rev xs) = map_of xs"
    by (intro map_of_inject_set [THEN iffD2]) (simp_all add: rev_map [symmetric])
  then show ?thesis by (rule fun_cong)
qed

lemma map_of_dict_update_add:
  "distinct (map fst kvs) \<Longrightarrow> map_of (dict_update d kvs) n = (map_of d ++ map_of kvs) n"
  by (simp add: map_of_dict_update_rev map_of_rev_distinct map_add_def)

lemma map_of_zip_None: "n \<notin> set xs \<Longrightarrow> map_of (zip xs ys) n = None"
  by (auto simp: map_of_eq_None_iff dest: set_zip_leftD)

lemma map_of_pairs_None: "n \<notin> f ` set xs \<Longrightarrow> map_of (map (\<lambda>v. (f v, g v)) xs) n = None"
  by (auto simp: map_of_eq_None_iff)

lemma assign_required_map:
  "distinct (map pname vs) \<Longrightarrow> assign_required vs d args = (d', args') \<Longrightarrow>
     args' = drop (length vs) args \<and>
     map_of d' n = (map_of d ++ map_of (map (\<lambda>v. (pname v, pdefault v)) vs)
                      ++ map_of (zip (map pname vs) args)) n"
proof (induction vs d args rule: assign_required.induct)
  case (1 data args)
  then show ?case by simp
next
  case (2 v vs data)
  from "2.prems" have dist: "distinct (map pname vs)" and notin: "pname v \<notin> pname ` set vs"
    by simp_all
  from "2.prems" have run: "assign_required vs (AList.update (pname v) (pdefault v) data) [] = (d', args')"
    by simp
  note nD = map_of_pairs_None [OF notin, of pdefault]
  from "2.IH" [OF dist run] nD show ?case
    by (auto simp: update_conv map_add_def split: option.splits)
next
  case (3 v vs data a args)
  from "3.prems" have dist: "distinct (map pname vs)" and notin: "pname v \<notin> pname ` set vs"
    by simp_all
  from "3.prems" have run: "assign_required vs (AList.update (pname v) a data) args = (d', args')"
    by simp
  note nD = map_of_pairs_None [OF notin, of pdefault]
  from notin have "pname v \<notin> set (map pname vs)" by simp
  note nZ = map_of_zip_None [OF this, of args]
  from "3.IH" [OF dist run] nD nZ show ?case
    by (auto simp: update_conv map_add_def split: option.splits)
qed

lemma assign_overflow_map:
  assumes sig: "sig = P @ T" and P: "\<forall>v \<in> set P. \<not> is_variadic v"
    and T: "T \<noteq> [] \<Longrightarrow> is_variadic (hd T)" and dist: "distinct (map pname P)"
  shows "idx \<le> length P \<Longrightarrow> T \<noteq> [] \<or> idx + length args \<le> length P \<Longrightarrow>
     \<exists>d'. assign_overflow sig idx (length args) d args = Inr (d', drop (length P - idx) args) \<and>
          (\<forall>n. map_of d' n = (map_of d ++ map_of (zip (map pname (drop idx P)) args)) n)"
proof (induction args arbitrary: idx d)
  case Nil
  show ?case by simp
next
  case (Cons a as)
  show ?case
  proof (cases "idx = length P")
    case True
    with Cons.prems have T': "T \<noteq> []" by auto
    with sig True have "sig ! idx = hd T" "idx < length sig"
      by (simp_all add: nth_append hd_conv_nth)
    with T [OF T'] True show ?thesis by simp
  next
    case False
    with Cons.prems have lt: "idx < length P" by simp
    with sig have nth: "sig ! idx = P ! idx" and lts: "idx < length sig"
      by (simp_all add: nth_append)
    from lt P have nv: "\<not> is_variadic (P ! idx)" by simp
    let ?d1 = "AList.update (pname (P ! idx)) a d"
    from lt have le: "Suc idx \<le> length P" by simp
    from Cons.prems(2) have cond: "T \<noteq> [] \<or> Suc idx + length as \<le> length P" by auto
    from Cons.IH [OF le cond, of ?d1] obtain d' where
      run: "assign_overflow sig (Suc idx) (length as) ?d1 as = Inr (d', drop (length P - Suc idx) as)"
      and m: "\<And>n. map_of d' n = (map_of ?d1 ++ map_of (zip (map pname (drop (Suc idx) P)) as)) n"
      by blast
    have dr: "drop idx P = P ! idx # drop (Suc idx) P"
      using lt by (simp add: Cons_nth_drop_Suc)
    from dist have "distinct (map pname (drop idx P))"
      by (simp add: distinct_drop drop_map [symmetric])
    then have "pname (P ! idx) \<notin> set (map pname (drop (Suc idx) P))"
      unfolding dr by simp
    note nZ = map_of_zip_None [OF this, of as]
    from lt have "drop (length P - idx) (a # as) = drop (length P - Suc idx) as"
      by (simp add: Suc_diff_Suc [symmetric] del: Suc_diff_Suc)
    moreover have "map_of d' n = (map_of d ++ map_of (zip (map pname (drop idx P)) (a # as))) n" for n
      using m [of n] nZ unfolding dr
      by (auto simp: update_conv map_add_def split: option.splits)
    ultimately show ?thesis
      using run lts nth nv by simp
  qed
qed

lemma option_eqI: "(\<And>y. a = Some y \<longleftrightarrow> b = Some y) \<Longrightarrow> a = b"
  by (cases a; cases b) auto

lemma map_of_zip_append:
  "distinct (xs @ ys) \<Longrightarrow>
     map_of (zip (xs @ ys) zs) n = (map_of (zip xs zs) ++ map_of (zip ys (drop (length xs) zs))) n"
proof (induction xs arbitrary: zs)
  case Nil
  show ?case by simp
next
  case (Cons x xs)
  show ?case
  proof (cases zs)
    case Nil
    then show ?thesis by simp
  next
    case (Cons z zs')
    from Cons.prems have "x \<notin> set ys" and d: "distinct (xs @ ys)" by auto
    from map_of_zip_None [OF this(1), of "drop (length xs) zs'"] Cons.IH [OF d, of zs'] Cons
    show ?thesis
      by (auto simp: map_add_def split: option.splits)
  qed
qed

lemma filter_nonvar_names:
  "distinct (map fst (defaults sig)) \<Longrightarrow> distinct (map pname (filter (\<lambda>v. \<not> is_variadic v) sig))"
  by (simp add: defaults_def comp_def)

lemma map_of_params:
  assumes "distinct (map pname xs)"
  shows "map_of (map (\<lambda>v. (pname v, pdefault v)) xs) n = Some y
           \<longleftrightarrow> (\<exists>v \<in> set xs. pname v = n \<and> pdefault v = y)"
proof -
  from assms have "distinct (map fst (map (\<lambda>v. (pname v, pdefault v)) xs))"
    by (simp add: comp_def)
  then show ?thesis by (auto simp: map_of_eq_Some_iff)
qed

lemma defaults_split:
  assumes "distinct (map fst (defaults sig))"
  shows "map_of (defaults sig) n
           = (map_of (kw_params sig) ++ map_of (map (\<lambda>v. (pname v, pdefault v)) (arg_params sig))) n"
proof -
  let ?nv = "filter (\<lambda>v. \<not> is_variadic v) sig"
  have d: "distinct (map pname ?nv)" by (rule filter_nonvar_names [OF assms])
  have kw: "kw_params sig = map (\<lambda>v. (pname v, pdefault v)) (filter (\<lambda>v. pdefault v \<noteq> ParameterEmpty) ?nv)"
    by (simp add: kw_params_def conj_commute)
  have ar: "arg_params sig = filter (\<lambda>v. pdefault v = ParameterEmpty) ?nv"
    by (simp add: arg_params_def conj_commute)
  have dkw: "distinct (map pname (filter (\<lambda>v. pdefault v \<noteq> ParameterEmpty) ?nv))"
    using d by (rule distinct_map_filter)
  have dar: "distinct (map pname (filter (\<lambda>v. pdefault v = ParameterEmpty) ?nv))"
    using d by (rule distinct_map_filter)
  have "v = w" if "v \<in> set ?nv" "w \<in> set ?nv" "pname v = pname w" for v w
    using d that by (meson distinct_map inj_onD)
  then have inj: "v = w"
    if "v \<in> set sig" "\<not> is_variadic v" "w \<in> set sig" "\<not> is_variadic w" "pname v = pname w"
    for v w
    using that by simp
  have "map_of (defaults sig) n = Some y \<longleftrightarrow>
        (map_of (kw_params sig) ++ map_of (map (\<lambda>v. (pname v, pdefault v)) (arg_params sig))) n = Some y"
    for y
    unfolding defaults_def kw ar map_add_Some_iff map_of_params [OF d] map_of_params [OF dkw]
      map_of_params [OF dar] map_of_eq_None_iff
    by (auto dest: inj)
  then show ?thesis by (rule option_eqI)
qed

lemma filter_takeWhile_dropWhile:
  "filter P xs = takeWhile P xs @ filter P (dropWhile P xs)"
  by (induction xs) auto

lemma positional_names_distinct:
  assumes "distinct (map fst (defaults sig))"
  shows "distinct (map pname (positional sig))"
proof -
  have "filter (\<lambda>v. \<not> is_variadic v) sig
          = positional sig @ filter (\<lambda>v. \<not> is_variadic v) (dropWhile (\<lambda>v. \<not> is_variadic v) sig)"
    unfolding positional_def by (rule filter_takeWhile_dropWhile)
  with filter_nonvar_names [OF assms] show ?thesis by simp
qed

lemma process_base_map:
  assumes wo: "well_ordered sig" and dist: "distinct (map fst (defaults sig))"
    and cond: "\<not> no_variadic sig \<or> length args \<le> length (positional sig)"
  shows "\<exists>d'. process_base sig d args = Inr (d', drop (length (positional sig)) args) \<and>
          (\<forall>n. map_of d' n = (map_of d ++ map_of (defaults sig)
                                  ++ map_of (zip (map pname (positional sig)) args)) n)"
proof -
  let ?P = "positional sig"
  let ?T = "dropWhile (\<lambda>v. \<not> is_variadic v) sig"
  let ?R = "arg_params sig"
  let ?O = "dropWhile (\<lambda>v. pdefault v = ParameterEmpty) ?P"
  let ?nd = "\<lambda>v. (pname v, pdefault v)"
  have sig: "sig = ?P @ ?T" by (simp add: positional_def)
  have P: "\<forall>v \<in> set ?P. \<not> is_variadic v"
    by (auto simp: positional_def dest: set_takeWhileD)
  have T: "?T \<noteq> [] \<Longrightarrow> is_variadic (hd ?T)"
    using hd_dropWhile [of "\<lambda>v. \<not> is_variadic v" sig] by simp
  have dP: "distinct (map pname ?P)" by (rule positional_names_distinct [OF dist])
  from wo have R: "?R = takeWhile (\<lambda>v. pdefault v = ParameterEmpty) ?P"
    by (simp add: well_ordered_def)
  then have PRO: "?P = ?R @ ?O" by simp
  then have lenR: "length ?R \<le> length ?P"
    by (metis le_add1 length_append)
  from PRO have dropR: "drop (length ?R) ?P = ?O"
    by (metis append_eq_conv_conj)
  from dP PRO have dR: "distinct (map pname ?R)"
    by (metis distinct_append map_append)
  have dkw: "distinct (map fst (kw_params sig))"
    using filter_nonvar_names [OF dist]
    by (simp add: kw_params_def comp_def conj_commute distinct_map_filter
        filter_filter [symmetric] del: filter_filter)
  let ?d1 = "dict_update d (kw_params sig)"
  obtain d2 args2 where req: "assign_required ?R ?d1 args = (d2, args2)"
    by (cases "assign_required ?R ?d1 args")
  from assign_required_map [OF dR req]
  have args2: "args2 = drop (length ?R) args"
    and m2: "\<And>n. map_of d2 n = (map_of ?d1 ++ map_of (map ?nd ?R) ++ map_of (zip (map pname ?R) args)) n"
    by blast+
  have c3: "?T \<noteq> [] \<or> length ?R + length args2 \<le> length ?P"
  proof (cases "no_variadic sig")
    case True
    with cond have "length args \<le> length ?P" by simp
    with lenR have "length ?R + length args2 \<le> length ?P" by (simp add: args2)
    then show ?thesis ..
  next
    case False
    then have "?T \<noteq> []"
      by (auto simp: no_variadic_iff dropWhile_eq_Nil_conv)
    then show ?thesis ..
  qed
  from assign_overflow_map [OF sig P T dP lenR c3, of d2] obtain d' where
    ov: "assign_overflow sig (length ?R) (length args2) d2 args2
           = Inr (d', drop (length ?P - length ?R) args2)"
    and m3: "\<And>n. map_of d' n = (map_of d2 ++ map_of (zip (map pname (drop (length ?R) ?P)) args2)) n"
    by blast
  have rest: "drop (length ?P - length ?R) args2 = drop (length ?P) args"
    using lenR by (simp add: args2)
  have run: "process_base sig d args = Inr (d', drop (length ?P) args)"
    using req ov rest by (simp add: process_base_def Let_def)
  have "map_of d' n = (map_of d ++ map_of (defaults sig) ++ map_of (zip (map pname ?P) args)) n" for n
  proof -
    have z: "map_of (zip (map pname ?P) args) n
               = (map_of (zip (map pname ?R) args) ++ map_of (zip (map pname ?O) args2)) n"
    proof -
      from dP PRO have "distinct (map pname ?R @ map pname ?O)"
        by (metis map_append)
      from map_of_zip_append [OF this, of args n] PRO show ?thesis
        by (metis args2 length_map map_append)
    qed
    show ?thesis
      unfolding m3 dropR
      by (simp add: map_add_def z m2 map_of_dict_update_add [OF dkw] defaults_split [OF dist]
          split: option.splits)
  qed
  with run show ?thesis by blast
qed

lemma positional_names_subset: "set (map pname (positional sig)) \<subseteq> fst ` set (defaults sig)"
  by (force simp: positional_def defaults_def dest: set_takeWhileD)

lemma chain_names_subset: "set (chain_names mro) \<subseteq> fst ` set (chain_defaults mro)"
proof (induction mro)
  case Nil
  show ?case by (simp add: chain_names_def chain_defaults_def)
next
  case (Cons sig mro)
  show ?case
  proof (cases "no_variadic sig")
    case True
    with positional_names_subset [of sig] show ?thesis
      by (simp add: chain_names_def chain_defaults_def)
  next
    case False
    then have "set (chain_names (sig # mro)) = set (map pname (positional sig)) \<union> set (chain_names mro)"
      and "fst ` set (chain_defaults (sig # mro))
             = fst ` set (defaults sig) \<union> fst ` set (chain_defaults mro)"
      by (simp_all add: chain_names_def chain_defaults_def image_Un)
    with Cons.IH positional_names_subset [of sig] show ?thesis
      by (simp only: Un_mono)
  qed
qed

lemma chain_names_distinct:
  "distinct (map fst (chain_defaults mro)) \<Longrightarrow> distinct (chain_names mro)"
proof (induction mro)
  case Nil
  show ?case by (simp add: chain_names_def)
next
  case (Cons sig mro)
  show ?case
  proof (cases "no_variadic sig")
    case True
    with Cons.prems positional_names_distinct [of sig] show ?thesis
      by (simp add: chain_names_def chain_defaults_def)
  next
    case False
    with Cons.prems have ds: "distinct (map fst (defaults sig))"
      and dr: "distinct (map fst (chain_defaults mro))"
      and disj: "fst ` set (defaults sig) \<inter> fst ` set (chain_defaults mro) = {}"
      by (simp_all add: chain_defaults_def)
    have "set (map pname (positional sig)) \<inter> set (chain_names mro) = {}"
      using disj positional_names_subset [of sig] chain_names_subset [of mro] by blast
    with Cons.IH [OF dr] positional_names_distinct [OF ds] False
    show ?thesis
      by (simp add: chain_names_def)
  qed
qed

lemma map_add_swap:
  "(m2 n \<noteq> None \<Longrightarrow> m1 n = None \<and> z n = None) \<Longrightarrow>
     (m ++ m1 ++ z ++ m2 ++ r) n = (m ++ (m2 ++ m1) ++ (z ++ r)) n"
  by (auto simp: map_add_def split: option.splits)

lemma walk_map:
  "\<forall>s \<in> set (visited_sigs mro). well_ordered s \<Longrightarrow> distinct (map fst (chain_defaults mro)) \<Longrightarrow>
   length args \<le> length (chain_names mro) \<Longrightarrow>
     \<exists>d'. walk mro d args = Inr d' \<and>
          (\<forall>n. map_of d' n = (map_of d ++ map_of (chain_defaults mro)
                                  ++ map_of (zip (chain_names mro) args)) n)"
proof (induction mro arbitrary: d args)
  case Nil
  show ?case by (simp add: chain_names_def chain_defaults_def)
next
  case (Cons sig mro)
  let ?N = "map pname (positional sig)"
  show ?case
  proof (cases "no_variadic sig")
    case True
    with Cons.prems have wo: "well_ordered sig" and ds: "distinct (map fst (defaults sig))"
      and len: "length args \<le> length (positional sig)"
      by (simp_all add: chain_names_def chain_defaults_def)
    from process_base_map [OF wo ds, of args d] len obtain d' where
      "process_base sig d args = Inr (d', drop (length (positional sig)) args)"
      "\<And>n. map_of d' n = (map_of d ++ map_of (defaults sig) ++ map_of (zip ?N args)) n"
      by blast
    with True show ?thesis
      by (simp add: chain_names_def chain_defaults_def)
  next
    case False
    with Cons.prems have wo: "well_ordered sig" and wos: "\<forall>s \<in> set (visited_sigs mro). well_ordered s"
      and ds: "distinct (map fst (defaults sig))"
      and dr: "distinct (map fst (chain_defaults mro))"
      and disj: "fst ` set (defaults sig) \<inter> fst ` set (chain_defaults mro) = {}"
      and len: "length args \<le> length ?N + length (chain_names mro)"
      by (simp_all add: chain_names_def chain_defaults_def)
    from process_base_map [OF wo ds, of args d] False obtain d1 where
      pb: "process_base sig d args = Inr (d1, drop (length (positional sig)) args)"
      and m1: "\<And>n. map_of d1 n = (map_of d ++ map_of (defaults sig) ++ map_of (zip ?N args)) n"
      by blast
    let ?args1 = "drop (length (positional sig)) args"
    from len have len1: "length ?args1 \<le> length (chain_names mro)" by simp
    from Cons.IH [OF wos dr len1, of d1] obtain d' where
      w: "walk mro d1 ?args1 = Inr d'"
      and m: "\<And>n. map_of d' n = (map_of d1 ++ map_of (chain_defaults mro)
                                    ++ map_of (zip (chain_names mro) ?args1)) n"
      by blast
    have run: "walk (sig # mro) d args = Inr d'"
      using pb w False by simp
    have names: "chain_names (sig # mro) = ?N @ chain_names mro"
      and defs: "chain_defaults (sig # mro) = defaults sig @ chain_defaults mro"
      using False by (simp_all add: chain_names_def chain_defaults_def)
    have dn: "distinct (?N @ chain_names mro)"
      using chain_names_distinct [OF Cons.prems(2)] names by simp
    have "map_of d' n = (map_of d ++ map_of (chain_defaults (sig # mro))
                           ++ map_of (zip (chain_names (sig # mro)) args)) n" for n
    proof -
      have z': "map_of (zip (?N @ chain_names mro) args)
                 = map_of (zip ?N args) ++ map_of (zip (chain_names mro) ?args1)"
        using map_of_zip_append [OF dn, of args] by (intro ext) simp
      have sep: "map_of (defaults sig) n = None \<and> map_of (zip ?N args) n = None"
        if "map_of (chain_defaults mro) n \<noteq> None"
      proof -
        from that have "n \<in> fst ` set (chain_defaults mro)"
          by (simp add: map_of_eq_None_iff)
        with disj have a: "n \<notin> fst ` set (defaults sig)" by blast
        with positional_names_subset [of sig] have "n \<notin> set ?N" by blast
        with a show ?thesis
          by (simp add: map_of_eq_None_iff map_of_zip_None)
      qed
      from m1 have m1': "map_of d1 = map_of d ++ map_of (defaults sig) ++ map_of (zip ?N args)"
        by (intro ext)
      have "map_of d' n = (map_of d ++ map_of (defaults sig) ++ map_of (zip ?N args)
                             ++ map_of (chain_defaults mro)
                             ++ map_of (zip (chain_names mro) ?args1)) n"
        by (simp only: m m1')
      also have "\<dots> = (map_of d ++ (map_of (chain_defaults mro) ++ map_of (defaults sig))
                         ++ (map_of (zip ?N args) ++ map_of (zip (chain_names mro) ?args1))) n"
        by (rule map_add_swap) (use sep in blast)
      also have "\<dots> = (map_of d ++ map_of (chain_defaults (sig # mro))
                           ++ map_of (zip (chain_names (sig # mro)) args)) n"
        by (simp only: names defs map_of_append z')
      finally show ?thesis .
    qed
    with run show ?thesis by blast
  qed
qed

lemma zip_take_right: "zip xs (take k ys) = zip (take k xs) ys"
proof (induction xs arbitrary: k ys)
  case Nil
  show ?case by simp
next
  case (Cons x xs)
  show ?case
    by (cases k; cases ys) (simp_all add: Cons.IH)
qed

text \<open>
  On a chain of well-ordered signatures whose parameter names are distinct, a call that passes
  the values \<open>vs\<close> by position and a call that passes the first \<open>k\<close> of them by position
  and the others by keyword, under the names of their slots, record the same metadata,
  whatever further keywords \<open>K\<close> both calls carry.
\<close>

lemma calls_agree:
  assumes wo: "\<forall>s \<in> set (visited_sigs mro). well_ordered s"
    and dist: "distinct (map fst (chain_defaults mro))"
    and len: "length vs \<le> length (chain_names mro)"
    and k: "k \<le> length vs"
  shows "\<exists>md1 md2. post_init mro vs K = Inr md1 \<and>
            post_init mro (take k vs) (zip (drop k (chain_names mro)) (drop k vs) @ K) = Inr md2 \<and>
            map_of md1 = map_of md2"
proof -
  let ?N = "chain_names mro"
  let ?Z = "zip (drop k ?N) (drop k vs)"
  from walk_map [OF wo dist len, of "[]"] obtain d1 where
    w1: "walk mro [] vs = Inr d1"
    and m1: "\<And>n. map_of d1 n = (map_of (chain_defaults mro) ++ map_of (zip ?N vs)) n"
    by auto
  from len have "length (take k vs) \<le> length ?N" by simp
  from walk_map [OF wo dist this, of "[]"] obtain d2 where
    w2: "walk mro [] (take k vs) = Inr d2"
    and m2: "\<And>n. map_of d2 n = (map_of (chain_defaults mro) ++ map_of (zip ?N (take k vs))) n"
    by auto
  from m1 have m1': "map_of d1 = map_of (chain_defaults mro) ++ map_of (zip ?N vs)"
    by (intro ext)
  from m2 have m2': "map_of d2 = map_of (chain_defaults mro) ++ map_of (zip ?N (take k vs))"
    by (intro ext)
  have dN: "distinct ?N" by (rule chain_names_distinct [OF dist])
  from k len have lk: "length (take k ?N) = k" by simp
  have "distinct (take k ?N @ drop k ?N)" using dN by simp
  from map_of_zip_append [OF this, of vs]
  have "map_of (zip (take k ?N @ drop k ?N) vs)
          = map_of (zip (take k ?N) vs) ++ map_of ?Z"
    unfolding lk by (intro ext)
  then have split: "map_of (zip ?N vs) = map_of (zip ?N (take k vs)) ++ map_of ?Z"
    by (simp add: zip_take_right)
  have "distinct (map fst ?Z)"
    using dN by (simp add: map_fst_zip_take distinct_drop)
  then have "map_of (rev ?Z) n = map_of ?Z n" for n
    by (rule map_of_rev_distinct)
  then have revZ: "map_of (rev ?Z) = map_of ?Z" by (intro ext)
  have u1: "map_of (dict_update d1 K) = map_of d1 ++ map_of (rev K)"
    by (intro ext) (rule map_of_dict_update_rev)
  have u2: "map_of (dict_update d2 (?Z @ K)) = map_of d2 ++ map_of (rev (?Z @ K))"
    by (intro ext) (rule map_of_dict_update_rev)
  have "map_of (dict_update d1 K) = map_of (dict_update d2 (?Z @ K))"
    unfolding u1 u2 m1' m2' split rev_append map_of_append revZ
    by (simp only: map_add_assoc)
  then have "map_of (clean_up (dict_update d1 K)) = map_of (clean_up (dict_update d2 (?Z @ K)))"
    by (intro ext) (simp add: map_of_clean_up)
  with w1 w2 show ?thesis
    by (simp add: post_init_def)
qed

text \<open>The hierarchy of \<^verbatim>\<open>test_arg_assignment_grandchild\<close> is such a chain.\<close>

lemma test_chain_well_ordered:
  "\<forall>s \<in> set (visited_sigs (Grandchild_sig # Child_sig # Parent_sig # tracker_bases)). well_ordered s"
  by (simp add: recorder_eval well_ordered_def positional_def)

lemma test_chain_names:
  "chain_names (Grandchild_sig # Child_sig # Parent_sig # tracker_bases)
     = [''gc1'', ''gc2'', ''c1'', ''c2'', ''c3'', ''p1'', ''p2'', ''p3'']"
  by (simp add: recorder_eval chain_names_def positional_def)

lemma test_chain_distinct:
  "distinct (map fst (chain_defaults (Grandchild_sig # Child_sig # Parent_sig # tracker_bases)))"
  by (simp add: recorder_eval chain_defaults_def defaults_def)

lemma calls_agree_Grandchild:
  "k \<le> 8 \<Longrightarrow>
   \<exists>md1 md2.
      post_init (Grandchild_sig # Child_sig # Parent_sig # tracker_bases)
        [a1, a2, a3, a4, a5, a6, a7, a8] K = Inr md1 \<and>
      post_init (Grandchild_sig # Child_sig # Parent_sig # tracker_bases)
        (take k [a1, a2, a3, a4, a5, a6, a7, a8])
        (zip (drop k [''gc1'', ''gc2'', ''c1'', ''c2'', ''c3'', ''p1'', ''p2'', ''p3''])
             (drop k [a1, a2, a3, a4, a5, a6, a7, a8]) @ K) = Inr md2 \<and>
      map_of md1 = map_of md2"
  using calls_agree [OF test_chain_well_ordered test_chain_distinct,
      of "[a1, a2, a3, a4, a5, a6, a7, a8]" k K]
  by (simp add: test_chain_names)

text \<open>
  Claim C3: positional, keyword and mixed calls that give the parameters of the chain the same
  values record the same metadata. The lemma \<open>calls_agree\<close> shows it for well-ordered
  signatures; the code breaks it at a hierarchy with a required keyword-only parameter, a leaf
  \<^verbatim>\<open>__init__(self, a, *args, k, **kwargs)\<close> that forwards to a base \<^verbatim>\<open>__init__(self, p1)\<close>.
  The calls \<^verbatim>\<open>Leaf("1", "2", k="3")\<close> and \<^verbatim>\<open>Leaf(a="1", k="3", p1="2")\<close> give the
  same values to \<^verbatim>\<open>a\<close>, \<^verbatim>\<open>k\<close> and \<^verbatim>\<open>p1\<close>. Lines 100-105 take every parameter
  without a default for a positional one, so in the first call \<^verbatim>\<open>k\<close> consumes \<^verbatim>\<open>"2"\<close>
  and \<^verbatim>\<open>p1\<close> is recorded as the sentinel \<^verbatim>\<open>inspect.Parameter.empty\<close>; the two metadata
  mappings differ.
\<close>

theorem keyword_only_misbinding:
  "post_init ([required ''a'', var_positional ''args'', keyword_only ''k'', var_keyword ''kwargs'']
              # [required ''p1''] # tracker_bases)
     [Obj ''1'', Obj ''2''] [(''k'', Obj ''3'')]
     = Inr [(''a'', Obj ''1''), (''k'', Obj ''3''), (''p1'', ParameterEmpty)] \<and>
   post_init ([required ''a'', var_positional ''args'', keyword_only ''k'', var_keyword ''kwargs'']
              # [required ''p1''] # tracker_bases)
     [] [(''a'', Obj ''1''), (''k'', Obj ''3''), (''p1'', Obj ''2'')]
     = Inr [(''a'', Obj ''1''), (''k'', Obj ''3''), (''p1'', Obj ''2'')] \<and>
   map_of [(''a'', Obj ''1''), (''k'', Obj ''3''), (''p1'', ParameterEmpty)] ''p1''
     \<noteq> map_of [(''a'', Obj ''1''), (''k'', Obj ''3''), (''p1'', Obj ''2'' :: string pyval)] ''p1''"
  by (simp add: recorder_eval)

section \<open>The registry holds the instances of each class\<close>

lemma run_Nil: "run [] = init_registry"
  by (simp add: run_def)

lemma run_snoc: "run (es @ [e]) = step e (run es)"
  by (simp add: run_def)

text \<open>Objects are numbered as they are built: every known object is below the counter.\<close>

lemma class_of_below_next: "class_of (run es) x = Some c \<Longrightarrow> x < next_obj (run es)"
proof (induction es arbitrary: x c rule: rev_induct)
  case Nil
  then show ?case by (simp add: run_Nil init_registry_def)
next
  case (snoc e es)
  show ?case
  proof (cases e)
    case (New cls)
    with snoc.prems have "x = next_obj (run es) \<or> class_of (run es) x = Some c"
      by (auto simp: run_snoc new_instance_def Let_def split: if_splits)
    with snoc.IH show ?thesis
      by (auto simp: run_snoc New new_instance_def Let_def less_Suc_eq)
  next
    case (Reclaim y)
    with snoc show ?thesis by (simp add: run_snoc reclaim_def)
  qed
qed

lemma next_obj_unknown: "class_of (run es) (next_obj (run es)) = None"
proof (cases "class_of (run es) (next_obj (run es))")
  case None
  then show ?thesis .
next
  case (Some c)
  from class_of_below_next [OF Some] show ?thesis by simp
qed

text \<open>A class has a registry of its own exactly when it has been instantiated.\<close>

lemma registry_exists_iff: "instances (run es) c = None \<longleftrightarrow> New c \<notin> set es"
proof (induction es rule: rev_induct)
  case Nil
  show ?case by (simp add: run_Nil init_registry_def)
next
  case (snoc e es)
  show ?case
  proof (cases e)
    case (New cls)
    with snoc show ?thesis
      by (auto simp: run_snoc new_instance_def Let_def)
  next
    case (Reclaim y)
    with snoc show ?thesis by (simp add: run_snoc reclaim_def)
  qed
qed

lemma class_of_New: "class_of (run es) x = Some c \<Longrightarrow> New c \<in> set es"
proof (induction es rule: rev_induct)
  case Nil
  then show ?case by (simp add: run_Nil init_registry_def)
next
  case (snoc e es)
  then show ?case
    by (cases e) (auto simp: run_snoc new_instance_def reclaim_def Let_def split: if_splits)
qed

text \<open>The registry of a class holds the objects of exactly that type.\<close>

lemma registry_members:
  "instances (run es) c = Some r \<Longrightarrow> set r = {x. class_of (run es) x = Some c}"
proof (induction es arbitrary: r rule: rev_induct)
  case Nil
  then show ?case by (simp add: run_Nil init_registry_def)
next
  case (snoc e es)
  let ?s = "run es"
  show ?case
  proof (cases e)
    case (Reclaim y)
    with snoc show ?thesis by (simp add: run_snoc reclaim_def)
  next
    case (New cls)
    note fresh = next_obj_unknown [of es]
    show ?thesis
    proof (cases "cls = c")
      case False
      with snoc.prems New have old: "instances ?s c = Some r"
        by (simp add: run_snoc new_instance_def Let_def)
      from snoc.IH [OF old] have "set r = {x. class_of ?s x = Some c}" .
      with False fresh show ?thesis
        by (auto simp: run_snoc New new_instance_def Let_def)
    next
      case True
      show ?thesis
      proof (cases "instances ?s c")
        case None
        with snoc.prems New True have r: "r = [next_obj ?s]"
          by (simp add: run_snoc new_instance_def Let_def)
        have "class_of ?s x \<noteq> Some c" for x
          using class_of_New [of es x c] registry_exists_iff [of es c] None by auto
        then show ?thesis
          by (auto simp: r run_snoc New True new_instance_def Let_def)
      next
        case (Some r0)
        with snoc.prems New True have r: "r = r0 @ [next_obj ?s]"
          by (simp add: run_snoc new_instance_def Let_def)
        from snoc.IH [OF Some] have "set r0 = {x. class_of ?s x = Some c}" .
        with fresh show ?thesis
          by (auto simp: r run_snoc New True new_instance_def Let_def)
      qed
    qed
  qed
qed


section \<open>Instances of a class and of its subclasses\<close>

text \<open>
  When every class that the call visits has been instantiated, and so has a registry of its
  own, \<^verbatim>\<open>inst_and_subcls_inst\<close> returns what its docstring says.
\<close>

lemma weak_list_live:
  "instances (run es) c = Some r \<Longrightarrow> set (weak_list (run es) r) = live_instances (run es) c"
  using registry_members [of es c r] by (auto simp: weak_list_def live_instances_def)

lemma inst_and_subcls_inst_expected:
  "\<forall>c \<in> set (visited t exclude). New c \<in> set es \<Longrightarrow>
     inst_and_subcls_inst (run es) anc t exclude = Inr (expected_instances (run es) t exclude)"
  and collect_subclasses_expected:
  "\<forall>c \<in> set (visited_below subs exclude). New c \<in> set es \<Longrightarrow>
     collect_subclasses (run es) mro subs exclude inst
       = Inr (inst \<union> expected_below (run es) subs exclude)"
proof (induction "run es" anc t exclude and "run es" mro subs exclude inst
    rule: inst_and_subcls_inst_collect_subclasses.induct)
  case (1 anc c subs exclude)
  from "1.prems" have "New c \<in> set es" by simp
  with registry_exists_iff [of es c] obtain r where r: "instances (run es) c = Some r"
    by auto
  from "1.prems" have below: "\<forall>c \<in> set (visited_below subs exclude). New c \<in> set es"
    by simp
  have lk: "lookup_instances (run es) (c # anc) = Some r" by (simp add: r)
  show ?case
    using "1.hyps" [OF lk below] by (simp add: r weak_list_live [OF r])
next
  case (2 mro exclude inst)
  show ?case by simp
next
  case (3 mro subcls subs exclude inst)
  show ?case
  proof (cases "name_of subcls \<in> set exclude")
    case True
    with "3.prems" "3.hyps"(1) show ?thesis by simp
  next
    case False
    from "3.prems" False have h1: "\<forall>c \<in> set (visited subcls exclude). New c \<in> set es"
      and h2: "\<forall>c \<in> set (visited_below subs exclude). New c \<in> set es"
      by auto
    have a: "inst_and_subcls_inst (run es) mro subcls exclude
               = Inr (expected_instances (run es) subcls exclude)"
      by (rule "3.hyps"(2) [OF False h1])
    have b: "collect_subclasses (run es) mro subs exclude
               (inst \<union> expected_instances (run es) subcls exclude)
               = Inr (inst \<union> expected_instances (run es) subcls exclude
                        \<union> expected_below (run es) subs exclude)"
      by (rule "3.hyps"(3) [OF False a h2])
    from False a b show ?thesis by (simp add: Un_assoc)
  qed
qed

text \<open>
  Claim C7: \<^verbatim>\<open>inst_and_subcls_inst\<close> returns the live instances of the class and of its
  descendants that are not excluded. The code breaks it at a class that has not been
  instantiated. Line 51 reads \<^verbatim>\<open>cls.instances\<close>
  without the test of \<^verbatim>\<open>cls.__dict__\<close> that \<^verbatim>\<open>__new__\<close> and \<^verbatim>\<open>get_instances\<close> make, so the
  attribute is inherited: after \<^verbatim>\<open>Parent()\<close> alone, \<^verbatim>\<open>Child.inst_and_subcls_inst()\<close> returns
  the instance of \<^verbatim>\<open>Parent\<close>, which is no instance of \<^verbatim>\<open>Child\<close> or of a subclass of it; and
  when no class of the hierarchy has been instantiated the call raises \<^verbatim>\<open>AttributeError\<close>.
\<close>

theorem inherited_registry_returned:
  "inst_and_subcls_inst (run [New ''Parent'']) [''Parent'', ''TrackedInstances'']
     (Class ''Child'' []) [] = Inr {0} \<and>
   class_of (run [New ''Parent'']) 0 = Some ''Parent'' \<and>
   expected_instances (run [New ''Parent'']) (Class ''Child'' []) [] = {} \<and>
   inst_and_subcls_inst (run []) [''TrackedInstances'']
     (Class ''Parent'' [Class ''Child'' []]) [] = Inl AttributeError"
  by (auto simp: run_def init_registry_def new_instance_def weak_list_def live_instances_def)

section \<open>The metadata view is the dictionary itself\<close>

text \<open>
  Claim C8, as amended. After the recorder has stored the metadata, assigning to the attribute
  \<^verbatim>\<open>metadata\<close> of the instance raises \<^verbatim>\<open>AttributeError\<close>, the property having no setter.
  The property returns the stored dictionary itself, not a copy or a read-only view of it, so
  an item assignment \<^verbatim>\<open>instance.metadata[k] = v\<close> succeeds and the metadata read afterwards
  holds the new value.
\<close>

theorem metadata_view:
  "setattr (store_metadata data st) ''metadata'' a = Inl AttributeError \<and>
   then_read (metadata_setitem (store_metadata data st) k v) = Inr (AList.update k v data)"
  by (simp add: setattr_def then_read_def metadata_setitem_def store_metadata_def metadata_def
      setitem_def read_metadata_def)

text \<open>
  Claim C8 as stated fails: on an instance whose metadata is \<^verbatim>\<open>{"p1": "a"}\<close>,
  \<^verbatim>\<open>instance.metadata["p1"] = "z"\<close> raises nothing and changes the metadata.
\<close>

theorem metadata_mutable_counterexample:
  "read_metadata (store_metadata [(''p1'', Obj ''a'')] new_object) = Inr [(''p1'', Obj ''a'')] \<and>
   then_read (metadata_setitem (store_metadata [(''p1'', Obj ''a'')] new_object) ''p1'' (Obj ''z''))
     = Inr [(''p1'', Obj ''z'')]"
  by (simp add: then_read_def metadata_setitem_def store_metadata_def metadata_def
      setitem_def read_metadata_def new_object_def)

section \<open>The hook is called once, by the wrapper of the exact type\<close>

lemma map_of_no_init: "''init'' \<notin> fst ` set kwargs \<Longrightarrow> map_of kwargs ''init'' = None"
  by (simp add: map_of_eq_None_iff)

lemma new_init_no_init:
  assumes "''init'' \<notin> fst ` set kwargs"
  shows "new_init call t cls default_init args kwargs =
           (case default_init args kwargs of
              Inl e \<Rightarrow> Inl e
            | Inr es \<Rightarrow> if t = cls then Inr (es @ [PostInit cls args kwargs]) else Inr es)"
  by (simp add: new_init_def map_of_no_init [OF assms])

lemma quiet_orig_init:
  assumes "quiet inherited" and "body_forwards_no_init b"
  shows "quiet (orig_init c b inherited)"
  unfolding quiet_def
proof (intro allI impI)
  fix args :: "'a list" and kwargs :: "'a kwargs"
  assume ni: "''init'' \<notin> fst ` set kwargs"
  show "\<exists>es. orig_init c b inherited args kwargs = Inr es \<and> (\<forall>e \<in> set es. \<not> is_post_init e)"
  proof (cases b)
    case Inherited
    with assms(1) ni show ?thesis by (simp add: orig_init_def quiet_def)
  next
    case Plain
    then show ?thesis by (simp add: orig_init_def)
  next
    case (Forwarding f)
    with assms(2) have "''init'' \<notin> fst ` set (snd (f args kwargs))"
      by (simp add: body_forwards_no_init_def)
    with assms(1) obtain es where
      "inherited (fst (f args kwargs)) (snd (f args kwargs)) = Inr es"
      "\<forall>e \<in> set es. \<not> is_post_init e"
      unfolding quiet_def by blast
    with Forwarding show ?thesis by (simp add: orig_init_def)
  qed
qed

lemma quiet_new_init:
  assumes "quiet orig" and "t \<noteq> c"
  shows "quiet (new_init call t c orig)"
  unfolding quiet_def
proof (intro allI impI)
  fix args :: "'a list" and kwargs :: "'a kwargs"
  assume ni: "''init'' \<notin> fst ` set kwargs"
  with assms(1) obtain es where "orig args kwargs = Inr es" "\<forall>e \<in> set es. \<not> is_post_init e"
    unfolding quiet_def by blast
  with assms(2) ni
  show "\<exists>es. new_init call t c orig args kwargs = Inr es \<and> (\<forall>e \<in> set es. \<not> is_post_init e)"
    by (simp add: new_init_no_init)
qed

text \<open>
  The initializer of a class that is not the type of the object, and whose ancestors are not
  either, runs without calling the hook.
\<close>

lemma quiet_initializer:
  "cls_name p \<noteq> t \<Longrightarrow> \<forall>a \<in> set (ancestors p). cls_name a \<noteq> t \<Longrightarrow> forwards_no_init p \<Longrightarrow>
     quiet (initializer call t p)"
proof (induction p rule: ancestors.induct)
  case (1 c part b)
  have "quiet (\<lambda>args kwargs. Inr [] :: 'a outcome)" by (simp add: quiet_def)
  with 1 have q: "quiet (orig_init c b (\<lambda>args kwargs. Inr [] :: 'a outcome))"
    by (simp add: quiet_orig_init)
  with 1 quiet_new_init [OF q, of t c call] show ?case
    by (cases part) (simp_all add: Let_def)
next
  case (2 c part b p)
  from "2.prems" have ne: "t \<noteq> c" and "quiet (initializer call t p)"
    and "body_forwards_no_init b"
    by (auto intro: "2.IH")
  then have q: "quiet (orig_init c b (initializer call t p))"
    by (simp add: quiet_orig_init)
  with quiet_new_init [OF q ne, of call] show ?case
    by (cases part) (simp_all add: Let_def)
qed

text \<open>
  When no keyword argument is named \<^verbatim>\<open>init\<close>, constructing an instance of a participating
  class runs the whole chain of initializers without a call of the hook, and then the wrapper
  of the class itself calls it once, with the arguments of the constructor call.
\<close>

lemma hook_fires_once:
  assumes "participates cls"
    and "\<forall>a \<in> set (ancestors cls). cls_name a \<noteq> cls_name cls"
    and "forwards_no_init cls"
    and "''init'' \<notin> fst ` set kwargs"
  shows "\<exists>es. construct call cls args kwargs = Inr (es @ [PostInit (cls_name cls) args kwargs]) \<and>
              (\<forall>e \<in> set es. \<not> is_post_init e)"
proof -
  obtain c part b up where cls: "cls = PClass c part b up" by (cases cls)
  let ?inh = "case up of None \<Rightarrow> (\<lambda>args kwargs. Inr [])
                | Some p \<Rightarrow> initializer call c p"
  have "quiet ?inh"
  proof (cases up)
    case None
    then show ?thesis by (simp add: quiet_def)
  next
    case (Some p)
    with assms(2,3) cls show ?thesis by (simp add: quiet_initializer)
  qed
  moreover from assms(3) cls have "body_forwards_no_init b" by simp
  ultimately have "quiet (orig_init c b ?inh)" by (rule quiet_orig_init)
  with assms(4) obtain es where "orig_init c b ?inh args kwargs = Inr es"
    and "\<forall>e \<in> set es. \<not> is_post_init e"
    unfolding quiet_def by blast
  with assms(1,4) cls show ?thesis
    by (simp add: construct_def Let_def new_init_no_init)
qed

text \<open>
  Claim C1: every construction calls the hook exactly once, from the wrapper of the exact type
  of the object, after the initializers, with the arguments of the constructor call. The
  lemma \<open>hook_fires_once\<close> shows it for calls without a keyword named \<^verbatim>\<open>init\<close>; the code
  breaks it at such a keyword. The wrapper declares
  \<^verbatim>\<open>init=cls.__init__\<close> as a keyword-only parameter, so for a participating class \<^verbatim>\<open>Foo\<close>
  with \<^verbatim>\<open>__init__(self, init=0)\<close> the call \<^verbatim>\<open>Foo(init=5)\<close> binds \<^verbatim>\<open>5\<close> to the wrapper's
  parameter and calls it in place of the initializer: an integer is not callable, the
  construction raises \<^verbatim>\<open>TypeError\<close> and the hook is never called. With a callable object
  in its place the initializer of \<^verbatim>\<open>Foo\<close> is skipped and the hook receives no keyword
  argument. \<^verbatim>\<open>Foo(5)\<close> is handled as the docstring of \<^verbatim>\<open>__post_init__\<close> says.
\<close>

theorem init_keyword_captured:
  "construct (\<lambda>v args kwargs. Inl TypeError) (PClass ''Foo'' True Plain None) []
     [(''init'', 5 :: int)] = Inl TypeError \<and>
   construct (\<lambda>v args kwargs. Inr []) (PClass ''Foo'' True Plain None) []
     [(''init'', 5 :: int)] = Inr [PostInit ''Foo'' [] []] \<and>
   construct (\<lambda>v args kwargs. Inl TypeError) (PClass ''Foo'' True Plain None) [5 :: int] []
     = Inr [Enter ''Foo'' [5] [], Leave ''Foo'', PostInit ''Foo'' [5] []]"
  by (simp add: construct_def new_init_def orig_init_def)

section \<open>The scenarios of the test suite\<close>

text \<open>\<^verbatim>\<open>test_arg_assignment_parent\<close>: positional, mixed and keyword calls of \<^verbatim>\<open>Parent\<close>.\<close>

lemma test_arg_assignment_parent:
  "post_init (Parent_sig # tracker_bases) [Obj ''argp1'', Obj ''argp2'', Obj ''argp3''] []
     = Inr [(''p3'', Obj ''argp3''), (''p1'', Obj ''argp1''), (''p2'', Obj ''argp2'')]"
  "post_init (Parent_sig # tracker_bases) [Obj ''argp1'']
       [(''p2'', Obj ''argp2''), (''p3'', Obj ''argp3'')]
     = Inr [(''p3'', Obj ''argp3''), (''p1'', Obj ''argp1''), (''p2'', Obj ''argp2'')]"
  "post_init (Parent_sig # tracker_bases) []
       [(''p1'', Obj ''argp1''), (''p2'', Obj ''argp2''), (''p3'', Obj ''argp3'')]
     = Inr [(''p3'', Obj ''argp3''), (''p1'', Obj ''argp1''), (''p2'', Obj ''argp2'')]"
  by (simp_all add: recorder_eval)

text \<open>
  \<^verbatim>\<open>test_inst_listing\<close>: two instances of \<^verbatim>\<open>Parent\<close>, two of \<^verbatim>\<open>Child\<close>, one of
  \<^verbatim>\<open>Grandchild\<close>, numbered in the order they are built.
\<close>

lemma test_inst_listing:
  "inst_and_subcls_inst
     (run [New ''Parent'', New ''Parent'', New ''Child'', New ''Child'', New ''Grandchild''])
     [''TrackedInstances''] (Class ''Parent'' [Class ''Child'' [Class ''Grandchild'' []]]) []
     = Inr {0, 1, 2, 3, 4}"
  "inst_and_subcls_inst
     (run [New ''Parent'', New ''Parent'', New ''Child'', New ''Child'', New ''Grandchild''])
     [''Parent'', ''TrackedInstances''] (Class ''Child'' [Class ''Grandchild'' []]) []
     = Inr {2, 3, 4}"
  "inst_and_subcls_inst
     (run [New ''Parent'', New ''Parent'', New ''Child'', New ''Child'', New ''Grandchild''])
     [''TrackedInstances''] (Class ''Parent'' [Class ''Child'' [Class ''Grandchild'' []]])
     [''Grandchild'']
     = Inr {0, 1, 2, 3}"
  by (auto simp: run_def init_registry_def new_instance_def weak_list_def)

text \<open>
  \<^verbatim>\<open>test_init_subclass\<close>: \<^verbatim>\<open>Superclass\<close> does not take part, \<^verbatim>\<open>Subclass(Superclass,
  CallPostInit)\<close> defines no initializer of its own.
\<close>

lemma test_init_subclass:
  "construct call (PClass ''Subclass'' True Inherited (Some (PClass ''Superclass'' False Plain None)))
     [10 :: int] []
     = Inr [Enter ''Superclass'' [10] [], Leave ''Superclass'', PostInit ''Subclass'' [10] []]"
  "initializer call ''Superclass'' (PClass ''Superclass'' False Plain None) [10 :: int] []
     = Inr [Enter ''Superclass'' [10] [], Leave ''Superclass'']"
  by (simp_all add: construct_def new_init_def orig_init_def)

end
